theory Spec2Isabelle
  imports Main
begin

section \<open>Tic-tac-toe game state of \<open>CompleteSrc/App.tsx\<close>\<close>

subsection \<open>Cells, boards and JavaScript array access\<close>

text \<open>
  A square holds \<open>null\<close> or a string (\<open>SquareProps.value: string | null\<close>); the board
  is the array \<open>squares\<close>. \<open>None\<close> stands for \<open>null\<close> and for \<open>undefined\<close>: the code
  only ever tests a square for truthiness or compares it with a truthy square, and both
  values behave the same in those two positions.
\<close>

type_synonym cell = "string option"
type_synonym board = "cell list"

text \<open>JavaScript truthiness of a square: \<open>null\<close>, \<open>undefined\<close> and \<open>''\<close> are falsy.\<close>

fun truthy :: "cell \<Rightarrow> bool" where
  "truthy None = False"
| "truthy (Some s) = (s \<noteq> [])"

text \<open>The read \<open>squares[i]\<close>: an index past the end yields \<open>undefined\<close>.\<close>

definition idx :: "board \<Rightarrow> nat \<Rightarrow> cell" where
  "idx squares i = (if i < length squares then squares ! i else None)"

text \<open>
  The write \<open>nextSquares[i] = v\<close> on the copy made by \<open>slice()\<close>: an index past the
  end extends the array, the holes in between reading as \<open>undefined\<close>.
\<close>

definition assign :: "board \<Rightarrow> nat \<Rightarrow> string \<Rightarrow> board" where
  "assign squares i v =
     (if i < length squares then squares[i := Some v]
      else squares @ replicate (i - length squares) None @ [Some v])"

subsection \<open>The win evaluator\<close>

definition lines :: "(nat \<times> nat \<times> nat) list" where
  "lines =
     [(0, 1, 2),
      (3, 4, 5),
      (6, 7, 8),
      (0, 3, 6),
      (1, 4, 7),
      (2, 5, 8),
      (0, 4, 8),
      (2, 4, 6)]"

text \<open>
  The body of \<open>for (let line of lines)\<close>, with \<open>const [a, b, c] = line\<close>: the first line
  that passes the test returns; falling out of the loop returns \<open>undefined\<close>.
\<close>

fun winner_loop :: "board \<Rightarrow> (nat \<times> nat \<times> nat) list \<Rightarrow> string option" where
  "winner_loop squares [] = None"
| "winner_loop squares ((a, b, c) # rest) =
     (if truthy (idx squares a) \<and> idx squares a = idx squares b
         \<and> idx squares a = idx squares c
      then idx squares a
      else winner_loop squares rest)"

definition calculateWinner :: "board \<Rightarrow> string option" where
  "calculateWinner squares = winner_loop squares lines"

subsection \<open>The game state and its handlers\<close>

record state =
  history :: "board list"
  currentMove :: nat

text \<open>\<open>useState([Array(9).fill(null)])\<close> and \<open>useState(0)\<close>.\<close>

definition initial :: state where
  "initial = \<lparr>history = [replicate 9 None], currentMove = 0\<rparr>"

definition xIsNext :: "state \<Rightarrow> bool" where
  "xIsNext s = (currentMove s mod 2 = 0)"

text \<open>
  \<open>history[currentMove]\<close> is \<open>undefined\<close> when the index is past the end; \<open>Board\<close> then
  fails while rendering (\<open>calculateWinner\<close> reads a property of \<open>undefined\<close>), so there is
  no board to click on.
\<close>

datatype error = TypeError

definition currentSquares :: "state \<Rightarrow> error + board" where
  "currentSquares s =
     (if currentMove s < length (history s) then Inr (history s ! currentMove s)
      else Inl TypeError)"

text \<open>
  \<open>Board.handleClick\<close> on the props \<open>xIsNext\<close> and \<open>squares\<close>: \<open>None\<close> is the early
  \<open>return\<close>, \<open>Some nextSquares\<close> the array handed to \<open>props.onPlay\<close>.
\<close>

definition handleClick :: "bool \<Rightarrow> board \<Rightarrow> nat \<Rightarrow> board option" where
  "handleClick xNext squares i =
     (if truthy (idx squares i) \<or> truthy (calculateWinner squares) then None
      else Some (if xNext then assign squares i ''X'' else assign squares i ''O''))"

definition handlePlay :: "state \<Rightarrow> board \<Rightarrow> state" where
  "handlePlay s nextSquares =
     (let nextHistory = take (currentMove s + 1) (history s) @ [nextSquares]
      in \<lparr>history = nextHistory, currentMove = length nextHistory - 1\<rparr>)"

definition jumpTo :: "state \<Rightarrow> nat \<Rightarrow> state" where
  "jumpTo s nextMove = s\<lparr>currentMove := nextMove\<rparr>"

text \<open>
  A click on square \<open>i\<close> of the rendered game: \<open>Game\<close> passes \<open>xIsNext\<close>,
  \<open>currentSquares\<close> and \<open>handlePlay\<close> to \<open>Board\<close>, whose \<open>handleClick\<close> either returns
  early (the state stays as it is) or calls \<open>onPlay\<close>.
\<close>

definition click :: "state \<Rightarrow> nat \<Rightarrow> error + state" where
  "click s i =
     (case currentSquares s of
        Inl e \<Rightarrow> Inl e
      | Inr squares \<Rightarrow>
          (case handleClick (xIsNext s) squares i of
             None \<Rightarrow> Inr s
           | Some nextSquares \<Rightarrow> Inr (handlePlay s nextSquares)))"

text \<open>A sequence of clicks, each on the state the previous one left.\<close>

fun clicks :: "state \<Rightarrow> nat list \<Rightarrow> error + state" where
  "clicks s [] = Inr s"
| "clicks s (i # rest) =
     (case click s i of Inl e \<Rightarrow> Inl e | Inr s' \<Rightarrow> clicks s' rest)"

text \<open>
  The states the interface can show: the initial one, those after a click on one of the
  nine rendered squares, and those after a press on one of the rendered history buttons
  (\<open>history.map((squares, move) => ...)\<close> renders one button per index of \<open>history\<close>).
\<close>

inductive reachable :: "state \<Rightarrow> bool" where
  reach_initial: "reachable initial"
| reach_click: "reachable s \<Longrightarrow> i < 9 \<Longrightarrow> click s i = Inr s' \<Longrightarrow> reachable s'"
| reach_jump: "reachable s \<Longrightarrow> t < length (history s) \<Longrightarrow> reachable (jumpTo s t)"

subsection \<open>Vocabulary of the specification\<close>

text \<open>A board of the data model: nine cells, each empty or one of the two marks.\<close>

definition wf_board :: "board \<Rightarrow> bool" where
  "wf_board b =
     (length b = 9 \<and> list_all (\<lambda>c. c = None \<or> c = Some ''X'' \<or> c = Some ''O'') b)"

text \<open>All three cells of a triple hold the same non-empty mark \<open>m\<close>.\<close>

fun three_in_line :: "board \<Rightarrow> nat \<times> nat \<times> nat \<Rightarrow> string \<Rightarrow> bool" where
  "three_in_line b (x, y, z) m =
     (m \<noteq> [] \<and> idx b x = Some m \<and> idx b y = Some m \<and> idx b z = Some m)"

text \<open>A cell index lies on a triple.\<close>

fun on_line :: "nat \<Rightarrow> nat \<times> nat \<times> nat \<Rightarrow> bool" where
  "on_line i (x, y, z) = (i = x \<or> i = y \<or> i = z)"

text \<open>The number of non-empty cells of a snapshot.\<close>

definition marks_count :: "board \<Rightarrow> nat" where
  "marks_count b = length (filter (\<lambda>c. c \<noteq> None) b)"

text \<open>
  The state after the clicks 1, 4, 2, 5, 3, 7, 6, 8 from the initial state: squares 1, 2,
  3 and 6 hold X, squares 4, 5, 7 and 8 hold O, square 0 is empty.
\<close>

definition eight_moves :: state where
  "eight_moves =
     \<lparr>history =
        [[None, None, None, None, None, None, None, None, None],
         [None, Some ''X'', None, None, None, None, None, None, None],
         [None, Some ''X'', None, None, Some ''O'', None, None, None, None],
         [None, Some ''X'', Some ''X'', None, Some ''O'', None, None, None, None],
         [None, Some ''X'', Some ''X'', None, Some ''O'', Some ''O'', None, None, None],
         [None, Some ''X'', Some ''X'', Some ''X'', Some ''O'', Some ''O'', None, None, None],
         [None, Some ''X'', Some ''X'', Some ''X'', Some ''O'', Some ''O'', None, Some ''O'', None],
         [None, Some ''X'', Some ''X'', Some ''X'', Some ''O'', Some ''O'', Some ''X'', Some ''O'', None],
         [None, Some ''X'', Some ''X'', Some ''X'', Some ''O'', Some ''O'', Some ''X'', Some ''O'', Some ''O'']],
      currentMove = 8\<rparr>"

section \<open>Properties\<close>

subsection \<open>Array access\<close>

lemma idx_assign: "idx (assign b i v) j = (if j = i then Some v else idx b j)"
  by (auto simp: idx_def assign_def nth_append)

lemma length_assign: "i < length b \<Longrightarrow> length (assign b i v) = length b"
  by (simp add: assign_def)

subsection \<open>The evaluator returns the first complete triple\<close>

lemma line_test_iff:
  "(truthy (idx b x) \<and> idx b x = idx b y \<and> idx b x = idx b z) \<longleftrightarrow> (\<exists>m. three_in_line b (x, y, z) m)"
  by (cases "idx b x") auto

lemma winner_loop_None_iff:
  "winner_loop b ls = None \<longleftrightarrow> (\<forall>l\<in>set ls. \<forall>m. \<not> three_in_line b l m)"
proof (induction ls)
  case Nil
  show ?case by simp
next
  case (Cons l ls)
  obtain x y z where l: "l = (x, y, z)" by (cases l) auto
  show ?case
  proof (cases "\<exists>m. three_in_line b (x, y, z) m")
    case True
    then obtain m where m: "three_in_line b (x, y, z) m" ..
    then have "winner_loop b (l # ls) = Some m" by (simp add: l)
    with m show ?thesis by (auto simp: l)
  next
    case False
    then have "winner_loop b (l # ls) = winner_loop b ls"
      unfolding l using line_test_iff[of b x y z] by auto
    with False Cons.IH show ?thesis by (auto simp: l)
  qed
qed

lemma winner_loop_Some:
  "winner_loop b ls = Some m \<Longrightarrow> \<exists>l\<in>set ls. three_in_line b l m"
proof (induction ls)
  case Nil
  then show ?case by simp
next
  case (Cons l ls)
  obtain x y z where l: "l = (x, y, z)" by (cases l) auto
  show ?case
  proof (cases "truthy (idx b x) \<and> idx b x = idx b y \<and> idx b x = idx b z")
    case True
    have "winner_loop b (l # ls) = idx b x"
      unfolding l winner_loop.simps by (rule if_P) (rule True)
    with Cons.prems have "idx b x = Some m" by simp
    with True have "three_in_line b (x, y, z) m" by auto
    then show ?thesis by (simp add: l)
  next
    case False
    with Cons.prems have "winner_loop b ls = Some m" by (auto simp: l)
    with Cons.IH show ?thesis by auto
  qed
qed

lemma winner_loop_first:
  "k < length ls \<Longrightarrow> three_in_line b (ls ! k) m \<Longrightarrow>
   (\<And>j m'. j < k \<Longrightarrow> \<not> three_in_line b (ls ! j) m') \<Longrightarrow> winner_loop b ls = Some m"
proof (induction ls arbitrary: k)
  case Nil
  then show ?case by simp
next
  case (Cons l ls)
  obtain x y z where l: "l = (x, y, z)" by (cases l) auto
  show ?case
  proof (cases k)
    case 0
    with Cons.prems(2) show ?thesis by (simp add: l)
  next
    case (Suc k')
    have "\<not> three_in_line b ((l # ls) ! 0) m'" for m'
      using Cons.prems(3)[of 0 m'] Suc by simp
    then have no: "\<not> (\<exists>m'. three_in_line b (x, y, z) m')" by (simp add: l)
    have step: "winner_loop b (l # ls) = winner_loop b ls"
      unfolding l using no line_test_iff[of b x y z] by auto
    have "winner_loop b ls = Some m"
    proof (rule Cons.IH[of k'])
      show "k' < length ls" using Cons.prems(1) Suc by simp
      show "three_in_line b (ls ! k') m" using Cons.prems(2) Suc by simp
      show "\<not> three_in_line b (ls ! j) m'" if "j < k'" for j m'
        using Cons.prems(3)[of "Suc j" m'] that Suc by simp
    qed
    with step show ?thesis by simp
  qed
qed


lemma truthy_not_None: "truthy c \<Longrightarrow> c \<noteq> None"
  by (cases c) simp_all

lemma truthy_winner_loop: "truthy (winner_loop b ls) \<longleftrightarrow> winner_loop b ls \<noteq> None"
proof (induction ls)
  case Nil
  show ?case by simp
next
  case (Cons l ls)
  obtain x y z where l: "l = (x, y, z)" by (cases l) auto
  show ?case
  proof (cases "truthy (idx b x) \<and> idx b x = idx b y \<and> idx b x = idx b z")
    case True
    have "winner_loop b (l # ls) = idx b x"
      unfolding l winner_loop.simps by (rule if_P) (rule True)
    moreover from True have "truthy (idx b x)" by (rule conjunct1)
    moreover from this have "idx b x \<noteq> None" by (rule truthy_not_None)
    ultimately show ?thesis by simp
  next
    case False
    have "winner_loop b (l # ls) = winner_loop b ls"
      unfolding l winner_loop.simps by (rule if_not_P) (rule False)
    with Cons.IH show ?thesis by simp
  qed
qed

lemma truthy_calculateWinner: "truthy (calculateWinner b) \<longleftrightarrow> calculateWinner b \<noteq> None"
  by (simp add: calculateWinner_def truthy_winner_loop)

subsection \<open>One click\<close>

lemma click_rejected:
  "currentSquares s = Inr cur \<Longrightarrow> truthy (idx cur i) \<or> calculateWinner cur \<noteq> None
   \<Longrightarrow> click s i = Inr s"
  by (auto simp: click_def handleClick_def truthy_calculateWinner)

lemma currentSquares_Inr:
  "currentSquares s = Inr cur \<longleftrightarrow> currentMove s < length (history s) \<and> cur = history s ! currentMove s"
  by (auto simp: currentSquares_def)

lemma click_accepted:
  assumes "currentSquares s = Inr cur" and "\<not> truthy (idx cur i)" and "calculateWinner cur = None"
  shows "click s i =
     Inr \<lparr>history = take (currentMove s + 1) (history s)
                      @ [assign cur i (if xIsNext s then ''X'' else ''O'')],
          currentMove = currentMove s + 1\<rparr>"
proof -
  from assms(1) have "currentMove s < length (history s)"
    by (simp add: currentSquares_Inr)
  then have "min (length (history s)) (Suc (currentMove s)) = Suc (currentMove s)"
    by simp
  with assms show ?thesis
    by (simp add: click_def handleClick_def handlePlay_def Let_def truthy_calculateWinner)
qed

lemma click_cases [consumes 1, case_names rejected accepted]:
  assumes "click s i = Inr s'"
  obtains "s' = s"
  | cur where "currentSquares s = Inr cur" and "\<not> truthy (idx cur i)"
      and "calculateWinner cur = None"
      and "s' = \<lparr>history = take (currentMove s + 1) (history s)
                      @ [assign cur i (if xIsNext s then ''X'' else ''O'')],
                 currentMove = currentMove s + 1\<rparr>"
proof -
  from assms obtain cur where cur: "currentSquares s = Inr cur"
    by (cases "currentSquares s") (auto simp: click_def)
  show thesis
  proof (cases "truthy (idx cur i) \<or> calculateWinner cur \<noteq> None")
    case True
    with cur have "click s i = Inr s" by (rule click_rejected)
    with assms have "s' = s" by simp
    then show thesis by (rule that(1))
  next
    case False
    then have free: "\<not> truthy (idx cur i)" "calculateWinner cur = None" by simp_all
    from click_accepted[OF cur free] assms
    have "s' = \<lparr>history = take (currentMove s + 1) (history s)
                      @ [assign cur i (if xIsNext s then ''X'' else ''O'')],
                 currentMove = currentMove s + 1\<rparr>" by simp
    with cur free show thesis by (rule that(2))
  qed
qed

lemma take_snoc_nth:
  "c < length h \<Longrightarrow> k < Suc (Suc c) \<Longrightarrow>
   (take (Suc c) h @ [n]) ! k = (if k \<le> c then h ! k else n)"
  by (auto simp: nth_append min_def)

subsection \<open>Reachable states\<close>

lemma reachable_clicks:
  "reachable s \<Longrightarrow> list_all (\<lambda>i. i < 9) is \<Longrightarrow> clicks s is = Inr s' \<Longrightarrow> reachable s'"
proof (induction "is" arbitrary: s)
  case Nil
  then show ?case by simp
next
  case (Cons i rest)
  from Cons.prems(3) obtain s1 where s1: "click s i = Inr s1" and rest: "clicks s1 rest = Inr s'"
    by (cases "click s i") auto
  from Cons.prems(1,2) s1 have "reachable s1" by (auto intro: reach_click)
  with Cons.IH rest Cons.prems(2) show ?case by simp
qed

lemma eight_moves_clicks: "clicks initial [1, 4, 2, 5, 3, 7, 6, 8] = Inr eight_moves"
  by code_simp

lemma reachable_eight_moves: "reachable eight_moves"
  using reach_initial _ eight_moves_clicks by (rule reachable_clicks) simp

lemma click_keeps_invariants:
  assumes "click s i = Inr s'"
    and "currentMove s < length (history s)" and "history s ! 0 = replicate 9 None"
  shows "currentMove s' < length (history s') \<and> history s' ! 0 = replicate 9 None"
  using assms(1)
proof (cases rule: click_cases)
  case rejected
  with assms(2,3) show ?thesis by simp
next
  case (accepted cur)
  with assms(2,3) show ?thesis by (simp add: nth_append)
qed

lemma jumpTo_keeps_invariants:
  assumes "t < length (history s)" and "history s ! 0 = replicate 9 None"
  shows "currentMove (jumpTo s t) < length (history (jumpTo s t))
     \<and> history (jumpTo s t) ! 0 = replicate 9 None"
  using assms by (simp add: jumpTo_def)

subsection \<open>Counting marks\<close>

lemma filter_update_count:
  "i < length xs \<Longrightarrow> \<not> P (xs ! i) \<Longrightarrow> P v \<Longrightarrow>
   length (filter P (xs[i := v])) = Suc (length (filter P xs))"
proof (induction xs arbitrary: i)
  case Nil
  then show ?case by simp
next
  case (Cons x xs)
  then show ?case by (cases i) auto
qed

lemma marks_count_assign:
  "i < length b \<Longrightarrow> idx b i = None \<Longrightarrow> marks_count (assign b i v) = Suc (marks_count b)"
  by (simp add: marks_count_def assign_def idx_def filter_update_count)

lemma marks_count_le: "marks_count b \<le> length b"
  by (simp add: marks_count_def)

lemma marks_count_full:
  "marks_count b = length b \<Longrightarrow> i < length b \<Longrightarrow> idx b i \<noteq> None"
proof -
  assume full: "marks_count b = length b" and i: "i < length b"
  have "filter (\<lambda>c. c \<noteq> None) b = b"
    using full length_filter_less[of _ b "\<lambda>c. c \<noteq> None"]
    by (metis (mono_tags, lifting) filter_True marks_count_def nat_neq_iff)
  then have "\<forall>c\<in>set b. c \<noteq> None" by (metis (mono_tags, lifting) filter_id_conv)
  with i show ?thesis by (simp add: idx_def)
qed

lemma wf_board_assign:
  assumes "wf_board b" and "i < 9" and "v = ''X'' \<or> v = ''O''"
  shows "wf_board (assign b i v)"
proof -
  from assms(1,2) have "i < length b" by (simp add: wf_board_def)
  then have "set (assign b i v) \<subseteq> insert (Some v) (set b)"
    by (simp add: assign_def set_update_subset_insert)
  with assms \<open>i < length b\<close> show ?thesis
    by (auto simp: wf_board_def list_all_iff assign_def)
qed

lemma wf_board_truthy: "wf_board b \<Longrightarrow> truthy (idx b i) \<longleftrightarrow> idx b i \<noteq> None"
  by (auto simp: wf_board_def idx_def list_all_length)

lemma wf_board_initial: "wf_board (replicate 9 None)"
  by (simp add: wf_board_def list_all_iff)

lemma click_keeps_snapshots:
  assumes "click s i = Inr s'" and "i < 9"
    and "currentMove s < length (history s)"
    and "\<forall>k<length (history s). wf_board (history s ! k) \<and> marks_count (history s ! k) = k"
  shows "\<forall>k<length (history s'). wf_board (history s' ! k) \<and> marks_count (history s' ! k) = k"
  using assms(1)
proof (cases rule: click_cases)
  case rejected
  with assms(4) show ?thesis by simp
next
  case (accepted cur)
  let ?c = "currentMove s"
  let ?new = "assign cur i (if xIsNext s then ''X'' else ''O'')"
  from accepted(1) have cur: "cur = history s ! ?c" by (simp add: currentSquares_Inr)
  with assms(3,4) have wf: "wf_board cur" and cnt: "marks_count cur = ?c" by simp_all
  from wf assms(2) have i: "i < length cur" by (simp add: wf_board_def)
  from wf accepted(2) have empty: "idx cur i = None" by (simp add: wf_board_truthy)
  have wf_new: "wf_board ?new" using wf assms(2) by (simp add: wf_board_assign)
  have cnt_new: "marks_count ?new = Suc ?c" using i empty cnt by (simp add: marks_count_assign)
  have len: "length (history s') = Suc (Suc ?c)" using accepted(4) assms(3) by simp
  show ?thesis
  proof (intro allI impI)
    fix k assume "k < length (history s')"
    with len have k: "k < Suc (Suc ?c)" by simp
    have nth: "history s' ! k = (if k \<le> ?c then history s ! k else ?new)"
      using accepted(4) take_snoc_nth[OF assms(3) k] by simp
    show "wf_board (history s' ! k) \<and> marks_count (history s' ! k) = k"
    proof (cases "k \<le> ?c")
      case True
      with assms(3,4) nth show ?thesis by simp
    next
      case False
      with k have "k = Suc ?c" by simp
      with nth wf_new cnt_new show ?thesis by simp
    qed
  qed
qed

lemma reachable_snapshots:
  "reachable s \<Longrightarrow> currentMove s < length (history s)
     \<and> (\<forall>k<length (history s). wf_board (history s ! k) \<and> marks_count (history s ! k) = k)"
proof (induction rule: reachable.induct)
  case reach_initial
  show ?case by (simp add: initial_def wf_board_initial marks_count_def)
next
  case (reach_click s i s')
  from reach_click.IH have c: "currentMove s < length (history s)" by simp
  have "currentMove s' < length (history s')"
    using reach_click.hyps(3) c
    by (cases rule: click_cases) simp_all
  moreover have "\<forall>k<length (history s'). wf_board (history s' ! k) \<and> marks_count (history s' ! k) = k"
  proof (rule click_keeps_snapshots[OF reach_click.hyps(3) reach_click.hyps(2) c])
    show "\<forall>k<length (history s). wf_board (history s ! k) \<and> marks_count (history s ! k) = k"
      using reach_click.IH by simp
  qed
  ultimately show ?case by simp
next
  case (reach_jump s t)
  then show ?case by (simp add: jumpTo_def)
qed

lemma accepted_move_lines:
  assumes "currentSquares s = Inr cur" and "calculateWinner cur = None"
    and "click s i = Inr s'" and "currentSquares s' = Inr new"
    and "l \<in> set lines" and "three_in_line new l m"
  shows "on_line i l \<and> m = (if xIsNext s then ''X'' else ''O'')"
proof -
  obtain x y z where l: "l = (x, y, z)" by (cases l) auto
  have none: "\<not> three_in_line cur l m"
    using assms(2,5) by (simp add: calculateWinner_def winner_loop_None_iff)
  from assms(1) have c: "currentMove s < length (history s)" by (simp add: currentSquares_Inr)
  from assms(3) show ?thesis
  proof (cases rule: click_cases)
    case rejected
    with assms(1,4) have "new = cur" by simp
    with none assms(6) show ?thesis by simp
  next
    case (accepted cur')
    let ?v = "if xIsNext s then ''X'' else ''O''"
    from accepted(1) assms(1) have "cur' = cur" by simp
    with accepted(4) assms(4) c have new: "new = assign cur i ?v"
      by (simp add: currentSquares_def nth_append)
    have rd: "idx new j = (if j = i then Some ?v else idx cur j)" for j
      unfolding new by (rule idx_assign)
    have on: "on_line i l"
    proof (rule ccontr)
      assume "\<not> on_line i l"
      then have "x \<noteq> i" "y \<noteq> i" "z \<noteq> i" by (auto simp: l)
      with assms(6) have "three_in_line cur l m" by (simp add: l rd)
      with none show False ..
    qed
    then have "idx new x = Some ?v \<or> idx new y = Some ?v \<or> idx new z = Some ?v"
      by (auto simp: l rd)
    moreover from assms(6) have "idx new x = Some m" "idx new y = Some m" "idx new z = Some m"
      by (simp_all add: l)
    ultimately have "m = ?v" by auto
    with on show ?thesis by simp
  qed
qed

subsection \<open>Complete triples of reachable snapshots\<close>

lemma winner_loop_first_mark:
  "k < length ls \<Longrightarrow> three_in_line b (ls ! k) m \<Longrightarrow>
   (\<And>j m'. j < k \<Longrightarrow> three_in_line b (ls ! j) m' \<Longrightarrow> m' = m) \<Longrightarrow>
   winner_loop b ls = Some m"
proof (induction ls arbitrary: k)
  case Nil
  then show ?case by simp
next
  case (Cons l ls)
  obtain x y z where l: "l = (x, y, z)" by (cases l) auto
  show ?case
  proof (cases "\<exists>m'. three_in_line b (x, y, z) m'")
    case True
    then obtain m' where m': "three_in_line b (x, y, z) m'" ..
    then have ret: "winner_loop b (l # ls) = Some m'" by (simp add: l)
    have "m' = m"
    proof (cases k)
      case 0
      with Cons.prems(2) m' show ?thesis by (simp add: l)
    next
      case (Suc k')
      then have "0 < k" by simp
      moreover from m' have "three_in_line b ((l # ls) ! 0) m'" by (simp add: l)
      ultimately show ?thesis by (rule Cons.prems(3))
    qed
    with ret show ?thesis by simp
  next
    case False
    then have step: "winner_loop b (l # ls) = winner_loop b ls"
      unfolding l using line_test_iff[of b x y z] by auto
    from False Cons.prems(2) obtain k' where k: "k = Suc k'"
      by (cases k) (auto simp: l)
    have "winner_loop b ls = Some m"
    proof (rule Cons.IH[of k'])
      show "k' < length ls" using Cons.prems(1) k by simp
      show "three_in_line b (ls ! k') m" using Cons.prems(2) k by simp
      show "m' = m" if "j < k'" and "three_in_line b (ls ! j) m'" for j m'
        using Cons.prems(3)[of "Suc j" m'] that k by simp
    qed
    with step show ?thesis by simp
  qed
qed

lemma no_line_on_empty_board: "\<not> three_in_line (replicate 9 None) l m"
proof -
  obtain x y z where l: "l = (x, y, z)" by (cases l) auto
  have "idx (replicate 9 None) x = None" by (simp add: idx_def)
  then show ?thesis by (simp add: l)
qed

lemma click_keeps_one_mark:
  assumes "click s i = Inr s'"
    and "currentMove s < length (history s)"
    and "\<forall>k<length (history s). \<forall>l\<in>set lines. \<forall>l'\<in>set lines. \<forall>m m'.
           three_in_line (history s ! k) l m \<longrightarrow> three_in_line (history s ! k) l' m' \<longrightarrow> m = m'"
  shows "\<forall>k<length (history s'). \<forall>l\<in>set lines. \<forall>l'\<in>set lines. \<forall>m m'.
           three_in_line (history s' ! k) l m \<longrightarrow> three_in_line (history s' ! k) l' m' \<longrightarrow> m = m'"
  using assms(1)
proof (cases rule: click_cases)
  case rejected
  with assms(3) show ?thesis by simp
next
  case (accepted cur)
  let ?c = "currentMove s"
  let ?v = "if xIsNext s then ''X'' else ''O''"
  let ?new = "assign cur i ?v"
  have len: "length (history s') = Suc (Suc ?c)" using accepted(4) assms(2) by simp
  have cur': "currentSquares s' = Inr ?new"
    using accepted(4) assms(2) by (simp add: currentSquares_def nth_append)
  have mover: "m = ?v" if "l \<in> set lines" and "three_in_line ?new l m" for l m
    using accepted_move_lines[OF accepted(1) accepted(3) assms(1) cur' that] by simp
  show ?thesis
  proof (intro allI ballI impI)
    fix k l l' m m'
    assume k: "k < length (history s')" and l: "l \<in> set lines" and l': "l' \<in> set lines"
      and a: "three_in_line (history s' ! k) l m" and a': "three_in_line (history s' ! k) l' m'"
    from k len have k2: "k < Suc (Suc ?c)" by simp
    have nth: "history s' ! k = (if k \<le> ?c then history s ! k else ?new)"
      using accepted(4) take_snoc_nth[OF assms(2) k2] by simp
    show "m = m'"
    proof (cases "k \<le> ?c")
      case True
      with nth a a' have "three_in_line (history s ! k) l m" "three_in_line (history s ! k) l' m'"
        by simp_all
      moreover from True assms(2) have "k < length (history s)" by simp
      ultimately show ?thesis using assms(3) l l' by blast
    next
      case False
      with nth a a' have "three_in_line ?new l m" "three_in_line ?new l' m'" by simp_all
      with l l' have "m = ?v" "m' = ?v" by (auto dest: mover)
      then show ?thesis by simp
    qed
  qed
qed

lemma reachable_one_mark:
  "reachable s \<Longrightarrow>
     \<forall>k<length (history s). \<forall>l\<in>set lines. \<forall>l'\<in>set lines. \<forall>m m'.
       three_in_line (history s ! k) l m \<longrightarrow> three_in_line (history s ! k) l' m' \<longrightarrow> m = m'"
proof (induction rule: reachable.induct)
  case reach_initial
  show ?case by (simp add: initial_def no_line_on_empty_board)
next
  case (reach_click s i s')
  from reach_click.hyps(1) have "currentMove s < length (history s)"
    using reachable_snapshots by simp
  with reach_click.hyps(3) show ?case using reach_click.IH by (rule click_keeps_one_mark)
next
  case (reach_jump s t)
  then show ?case by (simp add: jumpTo_def)
qed

section \<open>The claims of the specification\<close>

subsection \<open>The move handler\<close>

text \<open>
  C1: in a state with a current snapshot \<open>cur\<close>, if cell \<open>i\<close> of \<open>cur\<close> is empty (the
  test of the code is falsiness) and the evaluator reports no winner for \<open>cur\<close>, the click
  produces a state whose history is the old history cut to the indices \<open>0..currentMove\<close>
  followed by a new snapshot, whose cursor is the last index of that history, and whose
  new snapshot reads as the active mark at \<open>i\<close> and as \<open>cur\<close> everywhere else (with the
  same number of cells when \<open>i\<close> is one of them).
\<close>

theorem click_appends_snapshot:
  assumes "currentSquares s = Inr cur" and "\<not> truthy (idx cur i)"
    and "calculateWinner cur = None"
  shows "\<exists>s' new. click s i = Inr s'
    \<and> history s' = take (currentMove s + 1) (history s) @ [new]
    \<and> currentMove s' = length (history s') - 1
    \<and> currentSquares s' = Inr new
    \<and> (\<forall>j. idx new j = (if j = i then Some (if xIsNext s then ''X'' else ''O'') else idx cur j))
    \<and> (i < length cur \<longrightarrow> length new = length cur)"
proof -
  let ?new = "assign cur i (if xIsNext s then ''X'' else ''O'')"
  let ?s' = "\<lparr>history = take (currentMove s + 1) (history s) @ [?new],
              currentMove = currentMove s + 1\<rparr>"
  from assms(1) have c: "currentMove s < length (history s)"
    by (simp add: currentSquares_Inr)
  have "click s i = Inr ?s'" using assms by (rule click_accepted)
  moreover have "history ?s' = take (currentMove s + 1) (history s) @ [?new]" by simp
  moreover have "currentMove ?s' = length (history ?s') - 1" using c by simp
  moreover have "currentSquares ?s' = Inr ?new"
    using c by (simp add: currentSquares_def nth_append)
  moreover have "\<forall>j. idx ?new j = (if j = i then Some (if xIsNext s then ''X'' else ''O'') else idx cur j)"
    by (simp add: idx_assign)
  moreover have "i < length cur \<longrightarrow> length ?new = length cur"
    by (simp add: length_assign)
  ultimately show ?thesis by blast
qed

theorem click_appends_snapshot_witness:
  "currentSquares (jumpTo eight_moves 3) =
     Inr [None, Some ''X'', Some ''X'', None, Some ''O'', None, None, None, None]
   \<and> \<not> truthy (idx [None, Some ''X'', Some ''X'', None, Some ''O'', None, None, None, None] 0)
   \<and> calculateWinner [None, Some ''X'', Some ''X'', None, Some ''O'', None, None, None, None] = None
   \<and> (\<exists>s' new. click (jumpTo eight_moves 3) 0 = Inr s'
      \<and> history s' = take (currentMove (jumpTo eight_moves 3) + 1) (history (jumpTo eight_moves 3)) @ [new]
      \<and> currentMove s' = length (history s') - 1
      \<and> currentSquares s' = Inr new
      \<and> (\<forall>j. idx new j =
            (if j = 0 then Some (if xIsNext (jumpTo eight_moves 3) then ''X'' else ''O'')
             else idx [None, Some ''X'', Some ''X'', None, Some ''O'', None, None, None, None] j))
      \<and> (0 < length [None, Some ''X'', Some ''X'', None, Some ''O'', None, None, None, None]
           \<longrightarrow> length new =
               length [None, Some ''X'', Some ''X'', None, Some ''O'', None, None, None, None]))"
proof -
  let ?cur = "[None, Some ''X'', Some ''X'', None, Some ''O'', None, None, None, None]"
  have h1: "currentSquares (jumpTo eight_moves 3) = Inr ?cur"
    by (simp add: currentSquares_def jumpTo_def eight_moves_def)
  have h2: "\<not> truthy (idx ?cur 0)" by (simp add: idx_def)
  have h3: "calculateWinner ?cur = None"
    by (simp add: calculateWinner_def lines_def idx_def)
  from h1 h2 h3 click_appends_snapshot[OF h1 h2 h3] show ?thesis by blast
qed

text \<open>
  C2: in a state with a current snapshot \<open>cur\<close>, the click on cell \<open>i\<close> leaves the whole
  state (history and cursor) as it was if and only if cell \<open>i\<close> of \<open>cur\<close> is occupied or
  the evaluator reports a winner for \<open>cur\<close>.
\<close>

theorem click_unchanged_iff:
  assumes "currentSquares s = Inr cur"
  shows "click s i = Inr s \<longleftrightarrow> truthy (idx cur i) \<or> calculateWinner cur \<noteq> None"
proof (cases "truthy (idx cur i) \<or> calculateWinner cur \<noteq> None")
  case True
  with assms show ?thesis by (simp add: click_rejected)
next
  case False
  then have "click s i = Inr \<lparr>history = take (currentMove s + 1) (history s)
                      @ [assign cur i (if xIsNext s then ''X'' else ''O'')],
          currentMove = currentMove s + 1\<rparr>"
    using assms by (simp add: click_accepted)
  moreover have "currentMove \<lparr>history = take (currentMove s + 1) (history s)
                      @ [assign cur i (if xIsNext s then ''X'' else ''O'')],
          currentMove = currentMove s + 1\<rparr> \<noteq> currentMove s" by simp
  ultimately have "click s i \<noteq> Inr s" by (metis sum.inject(2))
  with False show ?thesis by simp
qed

theorem click_unchanged_iff_witness:
  "currentSquares eight_moves =
     Inr [None, Some ''X'', Some ''X'', Some ''X'', Some ''O'', Some ''O'', Some ''X'', Some ''O'', Some ''O'']
   \<and> truthy (idx [None, Some ''X'', Some ''X'', Some ''X'', Some ''O'', Some ''O'', Some ''X'', Some ''O'', Some ''O''] 4)
   \<and> click eight_moves 4 = Inr eight_moves
   \<and> \<not> truthy (idx [None, Some ''X'', Some ''X'', Some ''X'', Some ''O'', Some ''O'', Some ''X'', Some ''O'', Some ''O''] 0)
   \<and> calculateWinner [None, Some ''X'', Some ''X'', Some ''X'', Some ''O'', Some ''O'', Some ''X'', Some ''O'', Some ''O''] = None
   \<and> click eight_moves 0 \<noteq> Inr eight_moves"
proof -
  let ?cur = "[None, Some ''X'', Some ''X'', Some ''X'', Some ''O'', Some ''O'', Some ''X'', Some ''O'', Some ''O'']"
  have h: "currentSquares eight_moves = Inr ?cur"
    by (simp add: currentSquares_def eight_moves_def)
  have occupied: "truthy (idx ?cur 4)" by (simp add: idx_def)
  have empty: "\<not> truthy (idx ?cur 0)" by (simp add: idx_def)
  have nowin: "calculateWinner ?cur = None"
    by (simp add: calculateWinner_def lines_def idx_def)
  from h occupied empty nowin
    click_unchanged_iff[OF h, of 4] click_unchanged_iff[OF h, of 0]
  show ?thesis by blast
qed

text \<open>
  C4: the mark a valid move places depends on the parity of the cursor alone: after a
  click that changed the state, cell \<open>i\<close> of the new current snapshot holds X when the
  cursor was even and O when it was odd.
\<close>

theorem active_mark_by_parity:
  assumes "currentSquares s = Inr cur" and "click s i = Inr s'" and "s' \<noteq> s"
  shows "\<exists>new. currentSquares s' = Inr new
     \<and> (even (currentMove s) \<longrightarrow> idx new i = Some ''X'')
     \<and> (odd (currentMove s) \<longrightarrow> idx new i = Some ''O'')"
proof -
  have "\<not> (truthy (idx cur i) \<or> calculateWinner cur \<noteq> None)"
  proof
    assume "truthy (idx cur i) \<or> calculateWinner cur \<noteq> None"
    with assms(1) have "click s i = Inr s" by (rule click_rejected)
    with assms(2,3) show False by simp
  qed
  then have free: "\<not> truthy (idx cur i)" "calculateWinner cur = None" by simp_all
  let ?new = "assign cur i (if xIsNext s then ''X'' else ''O'')"
  from assms(1) have c: "currentMove s < length (history s)"
    by (simp add: currentSquares_Inr)
  have "s' = \<lparr>history = take (currentMove s + 1) (history s) @ [?new],
              currentMove = currentMove s + 1\<rparr>"
    using click_accepted[OF assms(1) free] assms(2) by simp
  then have "currentSquares s' = Inr ?new"
    using c by (simp add: currentSquares_def nth_append)
  moreover have "even (currentMove s) \<longrightarrow> idx ?new i = Some ''X''"
    by (simp add: idx_assign xIsNext_def even_iff_mod_2_eq_zero)
  moreover have "odd (currentMove s) \<longrightarrow> idx ?new i = Some ''O''"
    by (simp add: idx_assign xIsNext_def even_iff_mod_2_eq_zero)
  ultimately show ?thesis by blast
qed

theorem active_mark_by_parity_witness:
  "currentSquares (jumpTo eight_moves 3) =
     Inr [None, Some ''X'', Some ''X'', None, Some ''O'', None, None, None, None]
   \<and> click (jumpTo eight_moves 3) 0 =
       Inr (handlePlay (jumpTo eight_moves 3)
         [Some ''O'', Some ''X'', Some ''X'', None, Some ''O'', None, None, None, None])
   \<and> handlePlay (jumpTo eight_moves 3)
         [Some ''O'', Some ''X'', Some ''X'', None, Some ''O'', None, None, None, None]
       \<noteq> jumpTo eight_moves 3
   \<and> odd (currentMove (jumpTo eight_moves 3))
   \<and> (\<exists>new. currentSquares (handlePlay (jumpTo eight_moves 3)
         [Some ''O'', Some ''X'', Some ''X'', None, Some ''O'', None, None, None, None]) = Inr new
       \<and> idx new 0 = Some ''O'')"
proof -
  let ?s = "jumpTo eight_moves 3"
  let ?cur = "[None, Some ''X'', Some ''X'', None, Some ''O'', None, None, None, None]"
  let ?new = "[Some ''O'', Some ''X'', Some ''X'', None, Some ''O'', None, None, None, None]"
  have h1: "currentSquares ?s = Inr ?cur"
    by (simp add: currentSquares_def jumpTo_def eight_moves_def)
  have nowin: "calculateWinner ?cur = None"
    by (simp add: calculateWinner_def lines_def idx_def)
  have turn: "\<not> xIsNext ?s" by (simp add: xIsNext_def jumpTo_def)
  have h2: "click ?s 0 = Inr (handlePlay ?s ?new)"
    using nowin turn by (simp add: click_def h1 handleClick_def idx_def assign_def truthy_calculateWinner)
  have "currentMove (handlePlay ?s ?new) \<noteq> currentMove ?s"
    by (simp add: handlePlay_def jumpTo_def eight_moves_def)
  then have h3: "handlePlay ?s ?new \<noteq> ?s" by auto
  have par: "odd (currentMove ?s)" by (simp add: jumpTo_def)
  from h1 h2 h3 par active_mark_by_parity[OF h1 h2 h3] show ?thesis by blast
qed

subsection \<open>History navigation\<close>

text \<open>
  C5: for every state and every target index \<open>t\<close>, history navigation sets the cursor to
  exactly \<open>t\<close> and leaves the history as it was.
\<close>

theorem jumpTo_sets_cursor_only:
  "currentMove (jumpTo s t) = t \<and> history (jumpTo s t) = history s"
  by (simp add: jumpTo_def)

subsection \<open>Invariants of the reachable states\<close>

text \<open>
  C6: every reachable state has its cursor inside the history and the all-empty board at
  index 0 of the history: the initial state has both, and every click and every history
  navigation to an index of the history keeps both.
\<close>

theorem reachable_invariants:
  "reachable s \<Longrightarrow> currentMove s < length (history s) \<and> history s ! 0 = replicate 9 None"
proof (induction rule: reachable.induct)
  case reach_initial
  show ?case by (simp add: initial_def)
next
  case (reach_click s i s')
  then show ?case using click_keeps_invariants by blast
next
  case (reach_jump s t)
  then show ?case using jumpTo_keeps_invariants by blast
qed

theorem reachable_invariants_witness:
  "reachable (jumpTo eight_moves 3)
   \<and> currentMove (jumpTo eight_moves 3) < length (history (jumpTo eight_moves 3))
   \<and> history (jumpTo eight_moves 3) ! 0 = replicate 9 None"
proof -
  have "(3::nat) < length (history eight_moves)" by (simp add: eight_moves_def)
  with reachable_eight_moves have h: "reachable (jumpTo eight_moves 3)" by (rule reach_jump)
  from h reachable_invariants[OF h] show ?thesis by simp
qed

text \<open>
  C10: in every reachable state the snapshot at index \<open>k\<close> of the history has exactly
  \<open>k\<close> non-empty cells; so the history never has more than 10 snapshots, and once the
  current snapshot is full (9 non-empty cells) no click on any of the nine cells changes
  the state.
\<close>

theorem snapshot_mark_counts:
  assumes "reachable s"
  shows "(\<forall>k<length (history s). marks_count (history s ! k) = k)
    \<and> length (history s) \<le> 10
    \<and> (\<forall>cur. currentSquares s = Inr cur \<and> marks_count cur = 9
          \<longrightarrow> (\<forall>i<9. click s i = Inr s))"
proof -
  from assms have c: "currentMove s < length (history s)"
    and snaps: "\<forall>k<length (history s). wf_board (history s ! k) \<and> marks_count (history s ! k) = k"
    using reachable_snapshots by simp_all
  have counts: "\<forall>k<length (history s). marks_count (history s ! k) = k"
    using snaps by simp
  have len: "length (history s) \<le> 10"
  proof -
    let ?n = "length (history s) - 1"
    from c have n: "?n < length (history s)" by simp
    with snaps have "wf_board (history s ! ?n)" and "marks_count (history s ! ?n) = ?n"
      by simp_all
    then have "?n \<le> 9" using marks_count_le[of "history s ! ?n"] by (simp add: wf_board_def)
    then show ?thesis by simp
  qed
  have full: "\<forall>cur. currentSquares s = Inr cur \<and> marks_count cur = 9
          \<longrightarrow> (\<forall>i<9. click s i = Inr s)"
  proof (intro allI impI)
    fix cur and i :: nat
    assume a: "currentSquares s = Inr cur \<and> marks_count cur = 9" and i: "i < 9"
    then have "cur = history s ! currentMove s" by (simp add: currentSquares_Inr)
    with c snaps have wf: "wf_board cur" by simp
    then have "length cur = 9" by (simp add: wf_board_def)
    with a i have "idx cur i \<noteq> None" by (simp add: marks_count_full)
    with wf have "truthy (idx cur i)" by (simp add: wf_board_truthy)
    with a show "click s i = Inr s" by (simp add: click_rejected)
  qed
  from counts len full show ?thesis by blast
qed

theorem snapshot_mark_counts_witness:
  "reachable (handlePlay eight_moves
     [Some ''X'', Some ''X'', Some ''X'', Some ''X'', Some ''O'', Some ''O'', Some ''X'', Some ''O'', Some ''O''])
   \<and> currentSquares (handlePlay eight_moves
     [Some ''X'', Some ''X'', Some ''X'', Some ''X'', Some ''O'', Some ''O'', Some ''X'', Some ''O'', Some ''O''])
     = Inr [Some ''X'', Some ''X'', Some ''X'', Some ''X'', Some ''O'', Some ''O'', Some ''X'', Some ''O'', Some ''O'']
   \<and> marks_count
     [Some ''X'', Some ''X'', Some ''X'', Some ''X'', Some ''O'', Some ''O'', Some ''X'', Some ''O'', Some ''O'']
     = 9
   \<and> length (history (handlePlay eight_moves
     [Some ''X'', Some ''X'', Some ''X'', Some ''X'', Some ''O'', Some ''O'', Some ''X'', Some ''O'', Some ''O'']))
     = 10
   \<and> marks_count (history (handlePlay eight_moves
     [Some ''X'', Some ''X'', Some ''X'', Some ''X'', Some ''O'', Some ''O'', Some ''X'', Some ''O'', Some ''O''])
     ! 5) = 5
   \<and> click (handlePlay eight_moves
     [Some ''X'', Some ''X'', Some ''X'', Some ''X'', Some ''O'', Some ''O'', Some ''X'', Some ''O'', Some ''O''])
     7
     = Inr (handlePlay eight_moves
     [Some ''X'', Some ''X'', Some ''X'', Some ''X'', Some ''O'', Some ''O'', Some ''X'', Some ''O'', Some ''O''])"
proof -
  let ?cur = "[None, Some ''X'', Some ''X'', Some ''X'', Some ''O'', Some ''O'', Some ''X'', Some ''O'', Some ''O'']"
  let ?new = "[Some ''X'', Some ''X'', Some ''X'', Some ''X'', Some ''O'', Some ''O'', Some ''X'', Some ''O'', Some ''O'']"
  let ?s = "handlePlay eight_moves ?new"
  have cur: "currentSquares eight_moves = Inr ?cur"
    by (simp add: currentSquares_def eight_moves_def)
  have nowin: "calculateWinner ?cur = None"
    by (simp add: calculateWinner_def lines_def idx_def)
  have turn: "xIsNext eight_moves" by (simp add: xIsNext_def eight_moves_def)
  have step: "click eight_moves 0 = Inr ?s"
    using nowin turn by (simp add: click_def cur handleClick_def idx_def assign_def truthy_calculateWinner)
  have r: "reachable ?s"
    using reachable_eight_moves _ step by (rule reach_click) simp
  have new: "currentSquares ?s = Inr ?new"
    by (simp add: currentSquares_def handlePlay_def eight_moves_def)
  have full: "marks_count ?new = 9" by (simp add: marks_count_def)
  have len: "length (history ?s) = 10" by (simp add: handlePlay_def eight_moves_def)
  have five: "(5::nat) < length (history ?s)" and seven: "(7::nat) < 9" by (simp_all add: len)
  from snapshot_mark_counts[OF r] new full five seven
  have "marks_count (history ?s ! 5) = 5" and "click ?s 7 = Inr ?s" by blast+
  with r new full len show ?thesis by blast
qed

subsection \<open>The win evaluator\<close>

text \<open>
  C3: every board that has three equal non-empty marks along one of the eight triples
  makes the evaluator return the mark of a complete triple, never \<open>undefined\<close>; it is the
  mark \<open>m\<close> of a given complete triple whenever no triple earlier in the order of \<open>lines\<close>
  is complete with another mark, and so for every complete triple of the current
  snapshot of a reachable state, where all complete triples hold the same mark.
\<close>

theorem calculateWinner_complete_triple:
  "(l \<in> set lines \<and> three_in_line b l m
     \<longrightarrow> (\<exists>l'\<in>set lines. \<exists>m'. three_in_line b l' m' \<and> calculateWinner b = Some m'))
   \<and> (k < length lines \<and> three_in_line b (lines ! k) m1
        \<and> (\<forall>j<k. \<forall>m'. three_in_line b (lines ! j) m' \<longrightarrow> m' = m1)
     \<longrightarrow> calculateWinner b = Some m1)
   \<and> (reachable s \<and> currentSquares s = Inr cur \<and> l2 \<in> set lines \<and> three_in_line cur l2 m2
     \<longrightarrow> calculateWinner cur = Some m2)"
proof (intro conjI impI)
  assume a: "l \<in> set lines \<and> three_in_line b l m"
  then have "winner_loop b lines \<noteq> None" by (auto simp: winner_loop_None_iff)
  then obtain m' where m': "winner_loop b lines = Some m'" by auto
  then obtain l' where "l' \<in> set lines" and "three_in_line b l' m'"
    using winner_loop_Some by blast
  with m' show "\<exists>l'\<in>set lines. \<exists>m'. three_in_line b l' m' \<and> calculateWinner b = Some m'"
    by (auto simp: calculateWinner_def)
next
  assume "k < length lines \<and> three_in_line b (lines ! k) m1
        \<and> (\<forall>j<k. \<forall>m'. three_in_line b (lines ! j) m' \<longrightarrow> m' = m1)"
  then have k: "k < length lines" and line: "three_in_line b (lines ! k) m1"
    and earlier: "\<And>j m'. j < k \<Longrightarrow> three_in_line b (lines ! j) m' \<Longrightarrow> m' = m1"
    by simp_all
  show "calculateWinner b = Some m1"
    unfolding calculateWinner_def using k line earlier by (rule winner_loop_first_mark)
next
  assume a: "reachable s \<and> currentSquares s = Inr cur \<and> l2 \<in> set lines \<and> three_in_line cur l2 m2"
  then have c: "currentMove s < length (history s)" and cur: "cur = history s ! currentMove s"
    by (simp_all add: currentSquares_Inr)
  from a have "winner_loop cur lines \<noteq> None" by (auto simp: winner_loop_None_iff)
  then obtain m' where m': "winner_loop cur lines = Some m'" by auto
  then obtain l' where l': "l' \<in> set lines" and line': "three_in_line cur l' m'"
    using winner_loop_Some by blast
  from a have "reachable s" by simp
  then have "\<forall>k<length (history s). \<forall>l\<in>set lines. \<forall>l'\<in>set lines. \<forall>m m'.
       three_in_line (history s ! k) l m \<longrightarrow> three_in_line (history s ! k) l' m' \<longrightarrow> m = m'"
    by (rule reachable_one_mark)
  with c cur a l' line' have "m2 = m'" by blast
  with m' show "calculateWinner cur = Some m2" by (simp add: calculateWinner_def)
qed

theorem calculateWinner_complete_triple_witness:
  "(6, 7, 8) \<in> set lines
   \<and> three_in_line [Some ''O'', Some ''O'', Some ''O'', None, None, None, Some ''X'', Some ''X'', Some ''X'']
        (6, 7, 8) ''X''
   \<and> (0::nat) < length lines
   \<and> three_in_line [Some ''O'', Some ''O'', Some ''O'', None, None, None, Some ''X'', Some ''X'', Some ''X'']
        (lines ! 0) ''O''
   \<and> calculateWinner [Some ''O'', Some ''O'', Some ''O'', None, None, None, Some ''X'', Some ''X'', Some ''X'']
        = Some ''O''
   \<and> reachable (handlePlay eight_moves
        [Some ''X'', Some ''X'', Some ''X'', Some ''X'', Some ''O'', Some ''O'', Some ''X'', Some ''O'', Some ''O''])
   \<and> currentSquares (handlePlay eight_moves
        [Some ''X'', Some ''X'', Some ''X'', Some ''X'', Some ''O'', Some ''O'', Some ''X'', Some ''O'', Some ''O''])
       = Inr [Some ''X'', Some ''X'', Some ''X'', Some ''X'', Some ''O'', Some ''O'', Some ''X'', Some ''O'', Some ''O'']
   \<and> (0, 3, 6) \<in> set lines
   \<and> three_in_line
        [Some ''X'', Some ''X'', Some ''X'', Some ''X'', Some ''O'', Some ''O'', Some ''X'', Some ''O'', Some ''O'']
        (0, 3, 6) ''X''
   \<and> calculateWinner
        [Some ''X'', Some ''X'', Some ''X'', Some ''X'', Some ''O'', Some ''O'', Some ''X'', Some ''O'', Some ''O'']
       = Some ''X''"
proof -
  let ?b = "[Some ''O'', Some ''O'', Some ''O'', None, None, None, Some ''X'', Some ''X'', Some ''X'']"
  let ?old = "[None, Some ''X'', Some ''X'', Some ''X'', Some ''O'', Some ''O'', Some ''X'', Some ''O'', Some ''O'']"
  let ?cur = "[Some ''X'', Some ''X'', Some ''X'', Some ''X'', Some ''O'', Some ''O'', Some ''X'', Some ''O'', Some ''O'']"
  let ?s = "handlePlay eight_moves ?cur"
  have a1: "(6, 7, 8) \<in> set lines" by (simp add: lines_def)
  have a2: "three_in_line ?b (6, 7, 8) ''X''" by (simp add: idx_def)
  have b1: "(0::nat) < length lines" by (simp add: lines_def)
  have b2: "three_in_line ?b (lines ! 0) ''O''" by (simp add: lines_def idx_def)
  have b3: "\<forall>j<(0::nat). \<forall>m'. three_in_line ?b (lines ! j) m' \<longrightarrow> m' = ''O''" by simp
  have old: "currentSquares eight_moves = Inr ?old"
    by (simp add: currentSquares_def eight_moves_def)
  have nowin: "calculateWinner ?old = None"
    by (simp add: calculateWinner_def lines_def idx_def)
  have turn: "xIsNext eight_moves" by (simp add: xIsNext_def eight_moves_def)
  have step: "click eight_moves 0 = Inr ?s"
    using nowin turn
    by (simp add: click_def old handleClick_def idx_def assign_def truthy_calculateWinner)
  have c1: "reachable ?s"
    using reachable_eight_moves _ step by (rule reach_click) simp
  have c2: "currentSquares ?s = Inr ?cur"
    by (simp add: currentSquares_def handlePlay_def eight_moves_def)
  have c3: "(0, 3, 6) \<in> set lines" by (simp add: lines_def)
  have c4: "three_in_line ?cur (0, 3, 6) ''X''" by (simp add: idx_def)
  from a1 a2 b1 b2 b3 c1 c2 c3 c4
    calculateWinner_complete_triple[of "(6, 7, 8)" ?b "''X''" 0 "''O''" ?s ?cur "(0, 3, 6)" "''X''"]
  show ?thesis by blast
qed

text \<open>
  C7, the aside of the specification: no single move from a winner-free reachable board
  completes more than one triple. It fails in the reachable state after the clicks
  1, 4, 2, 5, 3, 7, 6, 8: the board has no winner, and the click on cell 0 completes
  the top row \<open>(0, 1, 2)\<close> and the left column \<open>(0, 3, 6)\<close> at once.
\<close>

theorem move_completes_two_triples:
  "reachable eight_moves
   \<and> currentSquares eight_moves =
       Inr [None, Some ''X'', Some ''X'', Some ''X'', Some ''O'', Some ''O'', Some ''X'', Some ''O'', Some ''O'']
   \<and> calculateWinner
       [None, Some ''X'', Some ''X'', Some ''X'', Some ''O'', Some ''O'', Some ''X'', Some ''O'', Some ''O'']
       = None
   \<and> click eight_moves 0 =
       Inr (handlePlay eight_moves
         [Some ''X'', Some ''X'', Some ''X'', Some ''X'', Some ''O'', Some ''O'', Some ''X'', Some ''O'', Some ''O''])
   \<and> currentSquares (handlePlay eight_moves
         [Some ''X'', Some ''X'', Some ''X'', Some ''X'', Some ''O'', Some ''O'', Some ''X'', Some ''O'', Some ''O''])
       = Inr [Some ''X'', Some ''X'', Some ''X'', Some ''X'', Some ''O'', Some ''O'', Some ''X'', Some ''O'', Some ''O'']
   \<and> (0, 1, 2) \<in> set lines \<and> (0, 3, 6) \<in> set lines
   \<and> \<not> three_in_line
       [None, Some ''X'', Some ''X'', Some ''X'', Some ''O'', Some ''O'', Some ''X'', Some ''O'', Some ''O'']
       (0, 1, 2) ''X''
   \<and> \<not> three_in_line
       [None, Some ''X'', Some ''X'', Some ''X'', Some ''O'', Some ''O'', Some ''X'', Some ''O'', Some ''O'']
       (0, 3, 6) ''X''
   \<and> three_in_line
       [Some ''X'', Some ''X'', Some ''X'', Some ''X'', Some ''O'', Some ''O'', Some ''X'', Some ''O'', Some ''O'']
       (0, 1, 2) ''X''
   \<and> three_in_line
       [Some ''X'', Some ''X'', Some ''X'', Some ''X'', Some ''O'', Some ''O'', Some ''X'', Some ''O'', Some ''O'']
       (0, 3, 6) ''X''"
proof (intro conjI)
  show "reachable eight_moves" by (rule reachable_eight_moves)
qed code_simp+

text \<open>
  C7, amended: the evaluator returns the mark of the first complete triple in the order
  of \<open>lines\<close>; and every triple that is complete after a click on a winner-free current
  snapshot passes through the clicked cell and holds the mark of the player who moved
  (a click may complete two triples at once).
\<close>

theorem first_complete_triple_wins:
  "(k < length lines \<and> three_in_line b (lines ! k) m
      \<and> (\<forall>j<k. \<forall>m'. \<not> three_in_line b (lines ! j) m')
    \<longrightarrow> calculateWinner b = Some m)
   \<and> (currentSquares s = Inr cur \<and> calculateWinner cur = None
      \<and> click s i = Inr s' \<and> currentSquares s' = Inr new
      \<and> l \<in> set lines \<and> three_in_line new l m2
    \<longrightarrow> on_line i l \<and> m2 = (if xIsNext s then ''X'' else ''O''))"
proof (intro conjI impI)
  assume "k < length lines \<and> three_in_line b (lines ! k) m
      \<and> (\<forall>j<k. \<forall>m'. \<not> three_in_line b (lines ! j) m')"
  then have k: "k < length lines" and line: "three_in_line b (lines ! k) m"
    and first: "\<And>j m'. j < k \<Longrightarrow> \<not> three_in_line b (lines ! j) m'"
    by simp_all
  show "calculateWinner b = Some m"
    unfolding calculateWinner_def using k line first by (rule winner_loop_first)
next
  assume a: "currentSquares s = Inr cur \<and> calculateWinner cur = None
      \<and> click s i = Inr s' \<and> currentSquares s' = Inr new
      \<and> l \<in> set lines \<and> three_in_line new l m2"
  have "on_line i l \<and> m2 = (if xIsNext s then ''X'' else ''O'')"
    by (rule accepted_move_lines[of s cur i s' new l m2]) (simp_all add: a)
  then show "on_line i l" and "m2 = (if xIsNext s then ''X'' else ''O'')" by simp_all
qed

theorem first_complete_triple_wins_witness:
  "(3::nat) < length lines
   \<and> three_in_line
        [Some ''X'', Some ''O'', Some ''O'', Some ''X'', Some ''X'', Some ''O'', Some ''X'', None, Some ''X'']
        (lines ! 3) ''X''
   \<and> three_in_line
        [Some ''X'', Some ''O'', Some ''O'', Some ''X'', Some ''X'', Some ''O'', Some ''X'', None, Some ''X'']
        (lines ! 6) ''X''
   \<and> calculateWinner
        [Some ''X'', Some ''O'', Some ''O'', Some ''X'', Some ''X'', Some ''O'', Some ''X'', None, Some ''X'']
       = Some ''X''
   \<and> currentSquares eight_moves =
       Inr [None, Some ''X'', Some ''X'', Some ''X'', Some ''O'', Some ''O'', Some ''X'', Some ''O'', Some ''O'']
   \<and> calculateWinner
       [None, Some ''X'', Some ''X'', Some ''X'', Some ''O'', Some ''O'', Some ''X'', Some ''O'', Some ''O'']
       = None
   \<and> click eight_moves 0 =
       Inr (handlePlay eight_moves
         [Some ''X'', Some ''X'', Some ''X'', Some ''X'', Some ''O'', Some ''O'', Some ''X'', Some ''O'', Some ''O''])
   \<and> currentSquares (handlePlay eight_moves
         [Some ''X'', Some ''X'', Some ''X'', Some ''X'', Some ''O'', Some ''O'', Some ''X'', Some ''O'', Some ''O''])
       = Inr [Some ''X'', Some ''X'', Some ''X'', Some ''X'', Some ''O'', Some ''O'', Some ''X'', Some ''O'', Some ''O'']
   \<and> (0, 3, 6) \<in> set lines
   \<and> three_in_line
       [Some ''X'', Some ''X'', Some ''X'', Some ''X'', Some ''O'', Some ''O'', Some ''X'', Some ''O'', Some ''O'']
       (0, 3, 6) ''X''
   \<and> on_line 0 (0, 3, 6)
   \<and> ''X'' = (if xIsNext eight_moves then ''X'' else ''O'')"
proof -
  let ?b = "[Some ''X'', Some ''O'', Some ''O'', Some ''X'', Some ''X'', Some ''O'', Some ''X'', None, Some ''X'']"
  let ?cur = "[None, Some ''X'', Some ''X'', Some ''X'', Some ''O'', Some ''O'', Some ''X'', Some ''O'', Some ''O'']"
  let ?new = "[Some ''X'', Some ''X'', Some ''X'', Some ''X'', Some ''O'', Some ''O'', Some ''X'', Some ''O'', Some ''O'']"
  have a1: "(3::nat) < length lines" by (simp add: lines_def)
  have a2: "three_in_line ?b (lines ! 3) ''X''" by (simp add: lines_def idx_def)
  have a3: "\<forall>j<3. \<forall>m'. \<not> three_in_line ?b (lines ! j) m'"
  proof (intro allI impI)
    fix j :: nat and m'
    assume "j < 3"
    then have "j = 0 \<or> j = 1 \<or> j = 2" by arith
    then show "\<not> three_in_line ?b (lines ! j) m'"
      by (auto simp: lines_def idx_def)
  qed
  have a4: "three_in_line ?b (lines ! 6) ''X''" by (simp add: lines_def idx_def)
  have b1: "currentSquares eight_moves = Inr ?cur"
    by (simp add: currentSquares_def eight_moves_def)
  have b2: "calculateWinner ?cur = None"
    by (simp add: calculateWinner_def lines_def idx_def)
  have turn: "xIsNext eight_moves" by (simp add: xIsNext_def eight_moves_def)
  have b3: "click eight_moves 0 = Inr (handlePlay eight_moves ?new)"
    using b2 turn by (simp add: click_def b1 handleClick_def idx_def assign_def truthy_calculateWinner)
  have b4: "currentSquares (handlePlay eight_moves ?new) = Inr ?new"
    by (simp add: currentSquares_def handlePlay_def eight_moves_def)
  have b5: "(0, 3, 6) \<in> set lines" by (simp add: lines_def)
  have b6: "three_in_line ?new (0, 3, 6) ''X''" by (simp add: idx_def)
  from a1 a2 a3 a4 b1 b2 b3 b4 b5 b6
    first_complete_triple_wins[of 3 ?b "''X''" eight_moves ?cur 0 "handlePlay eight_moves ?new"
      ?new "(0, 3, 6)" "''X''"]
  show ?thesis by blast
qed

subsection \<open>The evaluator on examples\<close>

text \<open>
  C8: from the initial state the clicks on cells 0, 4, 1, 8, 2 (X on 0, O on 4, X on 1,
  O on 8, X on 2) lead to a state whose current board has X along the top row
  \<open>(0, 1, 2)\<close>, and the evaluator returns X for it.
\<close>

theorem top_row_example:
  "clicks initial [0, 4, 1, 8, 2] =
     Inr \<lparr>history =
        [[None, None, None, None, None, None, None, None, None],
         [Some ''X'', None, None, None, None, None, None, None, None],
         [Some ''X'', None, None, None, Some ''O'', None, None, None, None],
         [Some ''X'', Some ''X'', None, None, Some ''O'', None, None, None, None],
         [Some ''X'', Some ''X'', None, None, Some ''O'', None, None, None, Some ''O''],
         [Some ''X'', Some ''X'', Some ''X'', None, Some ''O'', None, None, None, Some ''O'']],
        currentMove = 5\<rparr>
   \<and> calculateWinner
        [Some ''X'', Some ''X'', Some ''X'', None, Some ''O'', None, None, None, Some ''O'']
       = Some ''X''
   \<and> three_in_line
        [Some ''X'', Some ''X'', Some ''X'', None, Some ''O'', None, None, None, Some ''O'']
        (0, 1, 2) ''X''"
  by code_simp

text \<open>
  C9: on the board whose nine cells are all empty the win evaluator returns no winner.
  The evaluator is a function of the board alone.
\<close>

theorem calculateWinner_empty_board: "calculateWinner (replicate 9 None) = None"
  by (simp add: calculateWinner_def lines_def idx_def)

end
